theory Spec2Isabelle
  imports Complex_Main "HOL-Library.AList" "HOL-Library.Multiset"
begin

section \<open>Python values\<close>

text \<open>
  The two programs \<^verbatim>\<open>mozart_dice_game_gui.py\<close> and \<^verbatim>\<open>spin_game_gui.py\<close> share, word for
  word, every function below up to \<^verbatim>\<open>extract_clean_bars\<close>; they differ in one statement of
  \<^verbatim>\<open>build_from_spins\<close>, which is therefore modelled twice.

  Exceptions are values: a function that can raise returns \<open>py_error + 'a\<close>.
\<close>

datatype py_error = RuntimeError string | ZeroDivisionError | IndexError

definition py_getitem :: "'a list \<Rightarrow> int \<Rightarrow> py_error + 'a" where
  \<comment> \<open>\<^verbatim>\<open>xs[i]\<close>: an index below 0 counts back from the end of the list\<close>
  "py_getitem xs i =
     (if 0 \<le> i \<and> i < int (length xs) then Inr (xs ! nat i)
      else if - int (length xs) \<le> i \<and> i < 0 then Inr (xs ! nat (int (length xs) + i))
      else Inl IndexError)"

subsection \<open>Floats\<close>

text \<open>
  A Python float is an IEEE 754 double. A finite double is modelled by the rational number
  it denotes, and every float operation rounds the exact result to 53 significant bits,
  ties to even (\<open>fl\<close>). The exponent range is not bounded: overflow to infinity and
  subnormal numbers, which need magnitudes above \<open>2^1023\<close> or below \<open>2^-1022\<close>, are outside
  the model.
\<close>

function bit_length :: "int \<Rightarrow> nat" where
  "bit_length n = (if n \<le> 0 then 0 else Suc (bit_length (n div 2)))"
  by pat_completeness auto
termination
  by (relation "measure nat") auto

declare bit_length.simps [simp del]

definition ilog2 :: "rat \<Rightarrow> int" where
  \<comment> \<open>the binary exponent of a positive number: \<open>2 powi ilog2 x \<le> x < 2 powi (ilog2 x + 1)\<close>\<close>
  "ilog2 x = (if 1 \<le> x then int (bit_length \<lfloor>x\<rfloor>) - 1
              else - int (bit_length (\<lceil>1 / x\<rceil> - 1)))"

definition py_round :: "rat \<Rightarrow> int" where
  \<comment> \<open>\<^verbatim>\<open>round(x)\<close> of a float: the nearest integer, a tie goes to the even one\<close>
  "py_round x =
     (let f = \<lfloor>x\<rfloor>; d = x - of_int f
      in if d < 1 / 2 then f
         else if 1 / 2 < d then f + 1
         else if even f then f else f + 1)"

definition fl :: "rat \<Rightarrow> rat" where
  "fl x = (if x = 0 then 0
           else let u = 2 powi (ilog2 \<bar>x\<bar> - 52)
                in of_int (py_round (x / u)) * u)"

definition py_float :: "int \<Rightarrow> rat" where
  \<comment> \<open>\<^verbatim>\<open>float(n)\<close>, also the implicit conversion of an int operand of a float operation\<close>
  "py_float n = fl (of_int n)"

definition float_truediv :: "rat \<Rightarrow> rat \<Rightarrow> py_error + rat" where
  "float_truediv a b = (if b = 0 then Inl ZeroDivisionError else Inr (fl (a / b)))"

definition float_mul :: "rat \<Rightarrow> rat \<Rightarrow> rat" where
  "float_mul a b = fl (a * b)"

subsection \<open>Text\<close>

text \<open>
  A Python \<^verbatim>\<open>str\<close> is modelled by its UTF-8 bytes. \<open>repr_str\<close> follows \<^verbatim>\<open>repr\<close> on ASCII
  text (file names): single quotes unless the text holds a single and no double quote,
  backslash escapes for the quote, the backslash, tab, newline and carriage return, and
  \<^verbatim>\<open>\xhh\<close> for the other control characters.
\<close>

function str_nat :: "nat \<Rightarrow> string" where
  "str_nat n = (if n < 10 then [char_of (48 + n)]
                else str_nat (n div 10) @ [char_of (48 + n mod 10)])"
  by pat_completeness auto
termination
  by (relation "measure id") auto

declare str_nat.simps [simp del]

definition str_int :: "int \<Rightarrow> string" where
  "str_int i = (if i < 0 then CHR ''-'' # str_nat (nat (- i)) else str_nat (nat i))"

definition hex_digit :: "nat \<Rightarrow> char" where
  "hex_digit d = (if d < 10 then char_of (48 + d) else char_of (87 + d))"

definition repr_char :: "char \<Rightarrow> char \<Rightarrow> string" where
  "repr_char q c =
     (if c = q \<or> c = CHR 0x5C then [CHR 0x5C, c]
      else if c = CHR 0x09 then [CHR 0x5C, CHR ''t'']
      else if c = CHR 0x0A then [CHR 0x5C, CHR ''n'']
      else if c = CHR 0x0D then [CHR 0x5C, CHR ''r'']
      else if (of_char c :: nat) < 32 \<or> c = CHR 0x7F
        then [CHR 0x5C, CHR ''x'', hex_digit (of_char c div 16), hex_digit (of_char c mod 16)]
      else [c])"

definition repr_str :: "string \<Rightarrow> string" where
  "repr_str s =
     (let q = (if CHR 0x27 \<in> set s \<and> CHR 0x22 \<notin> set s then CHR 0x22 else CHR 0x27)
      in q # concat (map (repr_char q) s) @ [q])"

fun join :: "string \<Rightarrow> string list \<Rightarrow> string" where
  "join sep [] = []"
| "join sep [x] = x"
| "join sep (x # y # ys) = x @ sep @ join sep (y # ys)"

definition repr_list :: "string list \<Rightarrow> string" where
  "repr_list names = ''['' @ join '', '' (map repr_str names) @ '']''"

subsection \<open>The random generator\<close>

text \<open>
  \<^verbatim>\<open>random.Random\<close> belongs to the standard library, so the generator is a parameter: a type
  \<open>'g\<close> of generator states with the draw \<open>randbelow g n\<close> (the library's \<^verbatim>\<open>_randbelow\<close>, a
  number below \<open>n\<close> and the next state), the state \<open>seeded s\<close> that \<^verbatim>\<open>Random(s)\<close> starts
  in, and the state \<open>unseeded\<close> that \<^verbatim>\<open>Random(None)\<close> takes from the system's entropy.
  \<open>shuffle\<close> is the library's loop (Python 3.11 and later, which the programs require).
\<close>

record 'g py_random =
  randbelow :: "'g \<Rightarrow> nat \<Rightarrow> nat \<times> 'g"
  seeded :: "int \<Rightarrow> 'g"
  unseeded :: 'g

definition Random :: "'g py_random \<Rightarrow> int option \<Rightarrow> 'g" where
  "Random R seed = (case seed of None \<Rightarrow> unseeded R | Some s \<Rightarrow> seeded R s)"

definition rng_ok :: "'g py_random \<Rightarrow> bool" where
  "rng_ok R = (\<forall>g n. 0 < n \<longrightarrow> fst (randbelow R g n) < n)"

definition shuffle_step :: "'g py_random \<Rightarrow> nat \<Rightarrow> 'a list \<times> 'g \<Rightarrow> 'a list \<times> 'g" where
  \<comment> \<open>\<^verbatim>\<open>j = randbelow(i + 1); x[i], x[j] = x[j], x[i]\<close>\<close>
  "shuffle_step R i = (\<lambda>(x, g).
     let (j, g') = randbelow R g (i + 1) in (x[i := x ! j, j := x ! i], g'))"

definition shuffle :: "'g py_random \<Rightarrow> 'g \<Rightarrow> 'a list \<Rightarrow> 'a list \<times> 'g" where
  \<comment> \<open>\<^verbatim>\<open>for i in reversed(range(1, len(x))): ...\<close>\<close>
  "shuffle R g x = fold (shuffle_step R) (rev [1..<length x]) (x, g)"

definition counter_random :: "nat py_random" where
  \<comment> \<open>a small generator to run the model on: the state counts the draws made\<close>
  "counter_random = \<lparr> randbelow = (\<lambda>g n. (g mod n, g + 1)), seeded = (\<lambda>s. nat \<bar>s\<bar>), unseeded = 0 \<rparr>"

section \<open>MIDI helpers\<close>

text \<open>
  A message of the MIDI library is either a \<open>Message\<close> or a \<open>MetaMessage\<close>; both have a
  \<open>type\<close> and a delta \<open>time\<close>. The attribute \<^verbatim>\<open>note\<close> is \<open>note_num\<close>; for a message that
  is not a note, \<open>note_num\<close> and \<open>velocity\<close> stand for its two data values. A meta message
  has the attributes of its type (numerator and denominator for a time signature, tempo for
  a tempo change), the others are unused. \<^verbatim>\<open>msg.copy()\<close> is the identity on values.
\<close>

datatype msg_type =
  note_on | note_off | control_change | program_change | pitchwheel | aftertouch | polytouch
  | sysex | time_signature | set_tempo | other_type

datatype msg =
  Message (type: msg_type) (channel: int) (note_num: int) (velocity: int) (time: int)
  | MetaMessage (type: msg_type) (numerator: int) (denominator: int) (tempo: int) (time: int)

fun is_meta :: "msg \<Rightarrow> bool" where
  "is_meta (MetaMessage _ _ _ _ _) = True"
| "is_meta (Message _ _ _ _ _) = False"

fun set_time :: "int \<Rightarrow> msg \<Rightarrow> msg" where
  \<comment> \<open>\<^verbatim>\<open>msg.time = t\<close>\<close>
  "set_time t (Message ty c n v _) = Message ty c n v t"
| "set_time t (MetaMessage ty n d tp _) = MetaMessage ty n d tp t"

record MidiFile =
  ticks_per_beat :: int
  tracks :: "msg list list"

type_synonym event = "int \<times> msg"

definition CHANNEL_MSGS :: "msg_type set" where
  "CHANNEL_MSGS =
     {note_on, note_off, control_change, program_change, pitchwheel, aftertouch, polytouch}"

definition is_channel_msg :: "msg \<Rightarrow> bool" where
  "is_channel_msg msg = (\<not> is_meta msg \<and> type msg \<in> CHANNEL_MSGS)"

fun track_abs :: "int \<Rightarrow> msg list \<Rightarrow> event list" where
  \<comment> \<open>the loop over one track, \<open>t\<close> the running tick\<close>
  "track_abs t [] = []"
| "track_abs t (msg # tr) =
     (if is_channel_msg msg then (t + time msg, msg) # track_abs (t + time msg) tr
      else track_abs (t + time msg) tr)"

definition iter_abs_messages :: "MidiFile \<Rightarrow> event list" where
  "iter_abs_messages mid = sort_key fst (concat (map (track_abs 0) (tracks mid)))"

definition first_meta :: "MidiFile \<Rightarrow> msg_type \<Rightarrow> msg option" where
  "first_meta mid meta_type =
     find (\<lambda>msg. is_meta msg \<and> type msg = meta_type) (concat (tracks mid))"

definition get_time_signature :: "MidiFile \<Rightarrow> int \<times> int" where
  "get_time_signature mid =
     (case first_meta mid time_signature of
        Some ts \<Rightarrow> (numerator ts, denominator ts)
      | None \<Rightarrow> (4, 4))"

definition bpm2tempo_120 :: int where
  \<comment> \<open>\<^verbatim>\<open>bpm2tempo(120)\<close> of the MIDI library: microseconds per quarter note\<close>
  "bpm2tempo_120 = 500000"

definition get_tempo :: "MidiFile \<Rightarrow> int" where
  "get_tempo mid =
     (case first_meta mid set_tempo of Some st \<Rightarrow> tempo st | None \<Rightarrow> bpm2tempo_120)"

definition ticks_per_bar :: "int \<Rightarrow> int \<Rightarrow> int \<Rightarrow> py_error + int" where
  "ticks_per_bar tpb num den =
     (case float_truediv 4 (py_float den) of
        Inl e \<Rightarrow> Inl e
      | Inr q \<Rightarrow>
          (let bar_beats = float_mul (py_float num) q
           in Inr (max 1 (py_round (float_mul (py_float tpb) bar_beats)))))"

fun to_delta_loop :: "int \<Rightarrow> event list \<Rightarrow> msg list" where
  "to_delta_loop last_t [] = []"
| "to_delta_loop last_t ((t, msg) # abs_events) =
     set_time (max 0 (t - last_t)) msg # to_delta_loop t abs_events"

definition to_delta_track :: "event list \<Rightarrow> msg list" where
  "to_delta_track abs_events = (if abs_events = [] then [] else to_delta_loop 0 abs_events)"

section \<open>Bar extraction\<close>

text \<open>
  The dictionary \<^verbatim>\<open>active\<close> is an association list; it is empty exactly when the list is.
  The position \<^verbatim>\<open>idx\<close> in \<^verbatim>\<open>events\<close> is carried as the rest \<^verbatim>\<open>events[idx:]\<close> still to read.
\<close>

type_synonym voices = "((int \<times> int) \<times> int) list"

definition track_voice :: "msg \<Rightarrow> voices \<Rightarrow> voices" where
  \<comment> \<open>the \<^verbatim>\<open>if\<close>/\<^verbatim>\<open>elif\<close> that each of the two inner while statements runs on a message\<close>
  "track_voice m active =
     (if type m = note_on \<and> velocity m > 0
        then AList.update (channel m, note_num m) (velocity m) active
      else if type m = note_off \<or> (type m = note_on \<and> velocity m = 0)
        then AList.delete (channel m, note_num m) active
      else active)"

fun skip_loop :: "int \<Rightarrow> event list \<Rightarrow> voices \<Rightarrow> event list \<times> voices" where
  \<comment> \<open>\<^verbatim>\<open>while idx < len(events) and events[idx][0] < start\<close>\<close>
  "skip_loop start [] active = ([], active)"
| "skip_loop start ((t, m) # events) active =
     (if t < start then skip_loop start events (track_voice m active)
      else ((t, m) # events, active))"

fun scan_loop ::
  "int \<Rightarrow> int \<Rightarrow> event list \<Rightarrow> voices \<Rightarrow> event list \<Rightarrow> event list \<times> voices \<times> event list"
where
  \<comment> \<open>\<^verbatim>\<open>while scan_j < len(events) and events[scan_j][0] < end\<close>\<close>
  "scan_loop start end_t [] active bar_events_abs = ([], active, bar_events_abs)"
| "scan_loop start end_t ((t, m) # events) active bar_events_abs =
     (if t < end_t
        then scan_loop start end_t events (track_voice m active)
               (bar_events_abs @ [(t - start, set_time 0 m)])
      else ((t, m) # events, active, bar_events_abs))"

fun rel_track_loop :: "int \<Rightarrow> event list \<Rightarrow> event list" where
  \<comment> \<open>the delta times within a bar\<close>
  "rel_track_loop last_t [] = []"
| "rel_track_loop last_t ((rt, m) # bar_events_abs) =
     (rt, set_time (max 0 (rt - last_t)) m) # rel_track_loop rt bar_events_abs"

definition bar_step ::
  "int \<Rightarrow> nat \<Rightarrow> event list \<times> voices \<times> event list list \<Rightarrow> event list \<times> voices \<times> event list list"
where
  \<comment> \<open>the body of \<^verbatim>\<open>for b in range(n_bars)\<close>\<close>
  "bar_step bar_len b = (\<lambda>(events, active, safe_bars).
     let start = int b * bar_len;
         end_t = (int b + 1) * bar_len;
         (events1, active1) = skip_loop start events active;
         starts_silent = (active1 = []);
         (events2, active2, bar_events_abs) = scan_loop start end_t events1 active1 [];
         ends_silent = (active2 = [])
     in (events2, active2,
         if starts_silent \<and> ends_silent \<and> bar_events_abs \<noteq> []
         then safe_bars @ [rel_track_loop 0 (sort_key fst bar_events_abs)]
         else safe_bars))"

definition extract_clean_bars :: "MidiFile \<Rightarrow> py_error + event list list" where
  "extract_clean_bars mid =
     (let tpb = ticks_per_beat mid;
          (num, den) = get_time_signature mid
      in case ticks_per_bar tpb num den of
           Inl e \<Rightarrow> Inl e
         | Inr bar_len \<Rightarrow>
             (let events = iter_abs_messages mid
              in if events = [] then Inr []
                 else
                   (let end_time = fst (last events);
                        n_bars = max 1 (end_time div bar_len + 1);
                        (events', active, safe_bars) =
                          fold (bar_step bar_len) [0..<nat n_bars] (events, [], [])
                    in Inr safe_bars)))"

section \<open>Melody building from spins\<close>

type_synonym bar_entry = "int \<times> string \<times> nat \<times> event list"
  \<comment> \<open>\<^verbatim>\<open>(src_tpb, source_name, bar_index, bar_events)\<close>\<close>

fun pool_loop ::
  "(string \<times> MidiFile) list \<Rightarrow> bar_entry list \<times> int option \<times> (int \<times> int) option
     \<Rightarrow> py_error + (bar_entry list \<times> int option \<times> (int \<times> int) option)"
where
  \<comment> \<open>\<^verbatim>\<open>for name, mid in midis\<close>\<close>
  "pool_loop [] st = Inr st"
| "pool_loop ((name, mid) # midis) (pool, base_tempo, base_ts) =
     (case extract_clean_bars mid of
        Inl e \<Rightarrow> Inl e
      | Inr bars_list \<Rightarrow>
          if bars_list = [] then pool_loop midis (pool, base_tempo, base_ts)
          else pool_loop midis
                 (pool @ map (\<lambda>(i, b). (ticks_per_beat mid, name, i, b)) (enumerate 0 bars_list),
                  (if base_tempo = None then Some (get_tempo mid) else base_tempo),
                  (if base_ts = None then Some (get_time_signature mid) else base_ts)))"

definition phrase_len_bars :: nat where
  "phrase_len_bars = 4"

definition phrase_at :: "'a list \<Rightarrow> nat \<Rightarrow> py_error + 'a list" where
  \<comment> \<open>\<^verbatim>\<open>[shuffled[(pos + k) % len(shuffled)] for k in range(phrase_len_bars)]\<close>\<close>
  "phrase_at shuffled pos =
     (if length shuffled = 0 then Inl ZeroDivisionError
      else Inr (map (\<lambda>k. shuffled ! ((pos + k) mod length shuffled)) [0..<phrase_len_bars]))"

fun choices_loop ::
  "nat \<Rightarrow> 'a list \<Rightarrow> nat \<times> 'a list list \<Rightarrow> py_error + (nat \<times> 'a list list)"
where
  \<comment> \<open>\<^verbatim>\<open>for _ in range(11)\<close>, the first argument counting the rounds left\<close>
  "choices_loop 0 shuffled st = Inr st"
| "choices_loop (Suc n) shuffled (pos, choices_for_spin) =
     (case phrase_at shuffled pos of
        Inl e \<Rightarrow> Inl e
      | Inr phrase \<Rightarrow>
          choices_loop n shuffled
            ((pos + phrase_len_bars) mod length shuffled, choices_for_spin @ [phrase]))"

fun table_loop_dice ::
  "'g py_random \<Rightarrow> nat \<Rightarrow> 'g \<times> 'a list \<times> 'a list list list
     \<Rightarrow> py_error + ('g \<times> 'a list \<times> 'a list list list)"
where
  \<comment> \<open>\<^verbatim>\<open>mozart_dice_game_gui.py\<close>: \<^verbatim>\<open>shuffled = pool[:]; rng.shuffle(shuffled)\<close>\<close>
  "table_loop_dice R 0 st = Inr st"
| "table_loop_dice R (Suc n) (rng, pool, dice_table) =
     (let (shuffled, rng') = shuffle R rng pool
      in case choices_loop 11 shuffled (0, []) of
           Inl e \<Rightarrow> Inl e
         | Inr (pos, choices_for_spin) \<Rightarrow>
             table_loop_dice R n (rng', pool, dice_table @ [choices_for_spin]))"

fun table_loop_spin ::
  "'g py_random \<Rightarrow> nat \<Rightarrow> 'g \<times> 'a list \<times> 'a list list list
     \<Rightarrow> py_error + ('g \<times> 'a list \<times> 'a list list list)"
where
  \<comment> \<open>\<^verbatim>\<open>spin_game_gui.py\<close>: \<^verbatim>\<open>rng.shuffle(pool)\<close>\<close>
  "table_loop_spin R 0 st = Inr st"
| "table_loop_spin R (Suc n) (rng, pool, dice_table) =
     (let (pool', rng') = shuffle R rng pool
      in case choices_loop 11 pool' (0, []) of
           Inl e \<Rightarrow> Inl e
         | Inr (pos, choices_for_spin) \<Rightarrow>
             table_loop_spin R n (rng', pool', dice_table @ [choices_for_spin]))"

definition scale_tick :: "rat \<Rightarrow> int \<Rightarrow> int" where
  \<comment> \<open>\<^verbatim>\<open>int(round(rt * scale))\<close>\<close>
  "scale_tick scale rt = py_round (float_mul (py_float rt) scale)"

definition scale_bar :: "int \<Rightarrow> int \<Rightarrow> event list \<Rightarrow> py_error + event list" where
  \<comment> \<open>\<^verbatim>\<open>scale = tpb_out / float(src_tpb)\<close> and the list \<^verbatim>\<open>rel_abs\<close>\<close>
  "scale_bar tpb_out src_tpb bar =
     (case float_truediv (py_float tpb_out) (py_float src_tpb) of
        Inl e \<Rightarrow> Inl e
      | Inr scale \<Rightarrow> Inr (map (\<lambda>(rt, m). (scale_tick scale rt, m)) bar))"

fun phrase_loop ::
  "int \<Rightarrow> int \<Rightarrow> bar_entry list \<Rightarrow> event list \<times> int \<Rightarrow> py_error + (event list \<times> int)"
where
  \<comment> \<open>\<^verbatim>\<open>for src_tpb, name, bar_idx, bar in phrase\<close>\<close>
  "phrase_loop tpb_out bar_len_out [] st = Inr st"
| "phrase_loop tpb_out bar_len_out ((src_tpb, name, bar_idx, bar) # phrase) (events, abs_out_time) =
     (case scale_bar tpb_out src_tpb bar of
        Inl e \<Rightarrow> Inl e
      | Inr rel_abs \<Rightarrow>
          phrase_loop tpb_out bar_len_out phrase
            (events @ map (\<lambda>(t, m). (abs_out_time + t, m)) rel_abs,
             abs_out_time + bar_len_out))"

definition log_line :: "nat \<Rightarrow> int \<Rightarrow> bar_entry list \<Rightarrow> string" where
  \<comment> \<open>the f-string of the trace; \<open>0xE2 0x86 0x92\<close> is the arrow\<close>
  "log_line spin_idx tot phrase =
     ''Spin '' @ str_nat (spin_idx + 1) @ '': total='' @ str_int tot
     @ [CHR '' '', CHR 0xE2, CHR 0x86, CHR 0x92] @ '' phrase from ''
     @ repr_list (map (\<lambda>(src_tpb, name, bar_idx, bar). name) phrase)"

definition clamp_total :: "int \<Rightarrow> int" where
  \<comment> \<open>\<^verbatim>\<open>total = max(2, min(12, int(total)))\<close>\<close>
  "clamp_total total0 = max 2 (min 12 total0)"

definition lookup_phrase :: "'a list list list \<Rightarrow> nat \<Rightarrow> int \<Rightarrow> py_error + 'a list" where
  \<comment> \<open>\<^verbatim>\<open>dice_table[spin_idx][total - 2]\<close>\<close>
  "lookup_phrase dice_table spin_idx tot =
     (case py_getitem dice_table (int spin_idx) of
        Inl e \<Rightarrow> Inl e
      | Inr choices_for_spin \<Rightarrow> py_getitem choices_for_spin (tot - 2))"

fun spins_loop ::
  "int \<Rightarrow> int \<Rightarrow> bar_entry list list list \<Rightarrow> (nat \<times> int) list
     \<Rightarrow> event list \<times> int \<times> string list \<Rightarrow> py_error + (event list \<times> int \<times> string list)"
where
  \<comment> \<open>\<^verbatim>\<open>for spin_idx, total in enumerate(spins)\<close>\<close>
  "spins_loop tpb_out bar_len_out dice_table [] st = Inr st"
| "spins_loop tpb_out bar_len_out dice_table ((spin_idx, total0) # spins)
     (events, abs_out_time, log_lines) =
     (let tot = clamp_total total0
      in case lookup_phrase dice_table spin_idx tot of
           Inl e \<Rightarrow> Inl e
         | Inr phrase \<Rightarrow>
             (case phrase_loop tpb_out bar_len_out phrase (events, abs_out_time) of
                Inl e \<Rightarrow> Inl e
              | Inr (events', abs_out_time') \<Rightarrow>
                  spins_loop tpb_out bar_len_out dice_table spins
                    (events', abs_out_time', log_lines @ [log_line spin_idx tot phrase])))"

definition build_with ::
  "('g \<times> bar_entry list \<times> bar_entry list list list
       \<Rightarrow> py_error + ('g \<times> bar_entry list \<times> bar_entry list list list))
     \<Rightarrow> 'g \<Rightarrow> (string \<times> MidiFile) list \<Rightarrow> int list \<Rightarrow> int \<Rightarrow> py_error + (MidiFile \<times> string)"
where
  \<comment> \<open>the body the two programs share; the argument is the loop that builds the dice table\<close>
  "build_with table_loop rng midis spins tpb_out =
     (case pool_loop midis ([], None, None) of
        Inl e \<Rightarrow> Inl e
      | Inr (pool, base_tempo, base_ts) \<Rightarrow>
          if pool = [] then Inl (RuntimeError ''No clean bars found in the provided MIDIs.'')
          else
            (let tempo = (case base_tempo of Some t \<Rightarrow> t | None \<Rightarrow> bpm2tempo_120);
                 (num, den) = (case base_ts of Some ts \<Rightarrow> ts | None \<Rightarrow> (4, 4))
             in case table_loop (rng, pool, []) of
                  Inl e \<Rightarrow> Inl e
                | Inr (rng', pool', dice_table) \<Rightarrow>
                    (case ticks_per_bar tpb_out num den of
                       Inl e \<Rightarrow> Inl e
                     | Inr bar_len_out \<Rightarrow>
                         (case spins_loop tpb_out bar_len_out dice_table (enumerate 0 spins)
                                 ([], 0, []) of
                            Inl e \<Rightarrow> Inl e
                          | Inr (events, abs_out_time, log_lines) \<Rightarrow>
                              Inr (\<lparr> ticks_per_beat = tpb_out,
                                     tracks =
                                       [MetaMessage time_signature num den 0 0
                                        # MetaMessage set_tempo 0 0 tempo 0
                                        # to_delta_track (sort_key fst events)] \<rparr>,
                                   join [CHR 0x0A] log_lines)))))"

definition build_from_spins_dice ::
  "'g py_random \<Rightarrow> (string \<times> MidiFile) list \<Rightarrow> int list \<Rightarrow> int \<Rightarrow> int option
     \<Rightarrow> py_error + (MidiFile \<times> string)"
where
  \<comment> \<open>\<^verbatim>\<open>build_from_spins\<close> of \<^verbatim>\<open>mozart_dice_game_gui.py\<close>\<close>
  "build_from_spins_dice R midis spins tpb_out seed =
     build_with (table_loop_dice R (length spins)) (Random R seed) midis spins tpb_out"

definition build_from_spins_spin ::
  "'g py_random \<Rightarrow> (string \<times> MidiFile) list \<Rightarrow> int list \<Rightarrow> int \<Rightarrow> int option
     \<Rightarrow> py_error + (MidiFile \<times> string)"
where
  \<comment> \<open>\<^verbatim>\<open>build_from_spins\<close> of \<^verbatim>\<open>spin_game_gui.py\<close>\<close>
  "build_from_spins_spin R midis spins tpb_out seed =
     build_with (table_loop_spin R (length spins)) (Random R seed) midis spins tpb_out"

section \<open>Properties\<close>

definition table_shape :: "'a list list list \<Rightarrow> bool" where
  \<comment> \<open>every turn has 11 phrases of 4 bars\<close>
  "table_shape t = (\<forall>choices \<in> set t. length choices = 11 \<and>
      (\<forall>phrase \<in> set choices. length phrase = 4))"


definition replay :: "event list \<Rightarrow> voices \<Rightarrow> voices" where
  \<comment> \<open>the voice map after the events, read in order from the voice map \<open>active\<close>\<close>
  "replay evs active = fold (\<lambda>(t, m). track_voice m) evs active"

definition good_bar :: "int \<Rightarrow> event list \<Rightarrow> event list \<Rightarrow> bool" where
  \<comment> \<open>what the bar loop keeps: the events of one bar window that starts and ends in silence\<close>
  "good_bar L events bar =
     (bar \<noteq> [] \<and> replay bar [] = [] \<and>
      (\<forall>e \<in> set bar. 0 \<le> fst e \<and> fst e < L) \<and> sorted (map fst bar) \<and>
      (\<exists>b. replay (filter (\<lambda>e. fst e < int b * L) events) [] = [] \<and>
           map fst bar = map (\<lambda>e. fst e - int b * L)
                           (filter (\<lambda>e. int b * L \<le> fst e \<and> fst e < (int b + 1) * L) events) \<and>
           map (\<lambda>e. set_time 0 (snd e)) bar = map (\<lambda>e. set_time 0 (snd e))
                           (filter (\<lambda>e. int b * L \<le> fst e \<and> fst e < (int b + 1) * L) events)))"

section \<open>Example inputs\<close>

definition two_bars :: MidiFile where
  \<comment> \<open>4/4 at 4 ticks per beat: a note in the first bar and another in the second\<close>
  "two_bars = \<lparr> ticks_per_beat = 4,
      tracks = [[Message note_on 0 60 64 0, Message note_off 0 60 0 8,
                 Message note_on 0 62 64 8, Message note_off 0 62 0 8]] \<rparr>"

definition first_bar :: "event list" where
  \<comment> \<open>the first safe bar of \<open>two_bars\<close>\<close>
  "first_bar = [(0, Message note_on 0 60 64 0), (8, Message note_off 0 60 0 8)]"

definition second_bar :: "event list" where
  \<comment> \<open>the second safe bar of \<open>two_bars\<close>\<close>
  "second_bar = [(0, Message note_on 0 62 64 0), (8, Message note_off 0 62 0 8)]"

definition two_bars_pool :: "bar_entry list" where
  \<comment> \<open>the pool that \<open>two_bars\<close> alone gives\<close>
  "two_bars_pool = [(4, ''a.mid'', 0, first_bar), (4, ''a.mid'', 1, second_bar)]"

definition late_note :: MidiFile where
  \<comment> \<open>4/4 at 4 ticks per beat: one note in the last two ticks of the first bar\<close>
  "late_note = \<lparr> ticks_per_beat = 4,
      tracks = [[Message note_on 0 60 64 14, Message note_off 0 60 0 1]] \<rparr>"

definition late_bar :: "event list" where
  \<comment> \<open>the safe bar of \<open>late_note\<close>\<close>
  "late_bar = [(14, Message note_on 0 60 64 14), (15, Message note_off 0 60 0 1)]"

definition late_note_pool :: "bar_entry list" where
  \<comment> \<open>the pool that \<open>late_note\<close> alone gives\<close>
  "late_note_pool = [(4, ''a.mid'', 0, late_bar)]"




section \<open>Floats: exact cases\<close>

text \<open>
  A number \<open>m * 2^e\<close> with \<open>\<bar>m\<bar> < 2^53\<close> is a double, so rounding leaves it unchanged.
\<close>

lemma bit_length_bounds:
  "0 < n \<Longrightarrow> 2 ^ (bit_length n - 1) \<le> n \<and> n < 2 ^ bit_length n"
proof (induction n rule: bit_length.induct)
  case (1 n)
  show ?case
  proof (cases "n div 2 = 0")
    case True
    with 1(2) have "n = 1" by presburger
    then show ?thesis by (simp add: bit_length.simps)
  next
    case False
    with 1(2) have pos: "0 < n div 2" by presburger
    from 1(1)[OF _ pos] 1(2)
    have ih: "2 ^ (bit_length (n div 2) - 1) \<le> n div 2" "n div 2 < 2 ^ bit_length (n div 2)"
      by auto
    have bl: "bit_length n = Suc (bit_length (n div 2))"
      using 1(2) by (subst bit_length.simps) simp
    have blpos: "0 < bit_length (n div 2)"
      using pos by (subst bit_length.simps) simp
    then obtain k where k: "bit_length (n div 2) = Suc k"
      by (cases "bit_length (n div 2)") auto
    show ?thesis
      using ih unfolding bl k by auto
  qed
qed

lemma bit_length_pos: "0 < n \<Longrightarrow> 0 < bit_length n"
  by (subst bit_length.simps) simp

lemma ilog2_lower:
  assumes "0 < x"
  shows "2 powi (ilog2 x) \<le> x"
proof (cases "1 \<le> x")
  case True
  then have n: "0 < \<lfloor>x\<rfloor>" by simp
  from bit_length_bounds[OF n] have "(2::int) ^ (bit_length \<lfloor>x\<rfloor> - 1) \<le> \<lfloor>x\<rfloor>" by simp
  then have "of_int ((2::int) ^ (bit_length \<lfloor>x\<rfloor> - 1)) \<le> (of_int \<lfloor>x\<rfloor> :: rat)"
    by (simp only: of_int_le_iff)
  also have "\<dots> \<le> x" by simp
  finally have "(2::rat) ^ (bit_length \<lfloor>x\<rfloor> - 1) \<le> x" by simp
  moreover have "ilog2 x = int (bit_length \<lfloor>x\<rfloor> - 1)"
    using True bit_length_pos[OF n] by (simp add: ilog2_def)
  ultimately show ?thesis by (simp add: power_int_def)
next
  case False
  define m where "m = \<lceil>1 / x\<rceil> - 1"
  from False assms have y: "1 < 1 / x" by simp
  then have "1 < \<lceil>1 / x\<rceil>" by (simp add: less_ceiling_iff)
  then have m: "0 < m" by (simp add: m_def)
  have "1 / x \<le> of_int (m + 1)" by (simp add: m_def)
  also have "m + 1 \<le> 2 ^ bit_length m" using bit_length_bounds[OF m] by simp
  then have "(of_int (m + 1) :: rat) \<le> of_int (2 ^ bit_length m)" by (simp only: of_int_le_iff)
  finally have "1 / x \<le> 2 ^ bit_length m" by simp
  then have "1 \<le> 2 ^ bit_length m * x" using assms by (simp add: field_simps)
  then have "inverse (2 ^ bit_length m) \<le> x"
    by (simp add: field_simps)
  moreover have "ilog2 x = - int (bit_length m)"
    using False by (simp add: ilog2_def m_def)
  ultimately show ?thesis by (simp add: power_int_minus)
qed

lemma py_round_of_int [simp]: "py_round (of_int k) = k"
  by (simp add: py_round_def)


lemma py_round_mono: "x \<le> y \<Longrightarrow> py_round x \<le> py_round y"
proof -
  assume xy: "x \<le> y"
  have fx: "of_int \<lfloor>x\<rfloor> \<le> x" "x < of_int \<lfloor>x\<rfloor> + 1" by linarith+
  have fy: "of_int \<lfloor>y\<rfloor> \<le> y" "y < of_int \<lfloor>y\<rfloor> + 1" by linarith+
  have le: "\<lfloor>x\<rfloor> \<le> \<lfloor>y\<rfloor>" using xy by (rule floor_mono)
  show ?thesis
  proof (cases "\<lfloor>x\<rfloor> = \<lfloor>y\<rfloor>")
    case True
    then show ?thesis using xy by (auto simp: py_round_def Let_def)
  next
    case False
    with le have "\<lfloor>x\<rfloor> + 1 \<le> \<lfloor>y\<rfloor>" by simp
    moreover have "py_round x \<le> \<lfloor>x\<rfloor> + 1" by (auto simp: py_round_def Let_def)
    moreover have "\<lfloor>y\<rfloor> \<le> py_round y" by (auto simp: py_round_def Let_def)
    ultimately show ?thesis by linarith
  qed
qed

lemma fl_exact:
  assumes "\<bar>m\<bar> < 2 ^ 53"
  shows "fl (of_int m * 2 powi e) = of_int m * 2 powi e"
proof (cases "m = 0")
  case True
  then show ?thesis by (simp add: fl_def)
next
  case False
  define x :: rat where "x = of_int m * 2 powi e"
  have x0: "x \<noteq> 0" using False by (simp add: x_def)
  have ax: "\<bar>x\<bar> = of_int \<bar>m\<bar> * 2 powi e" by (simp add: x_def abs_mult)
  define g where "g = ilog2 \<bar>x\<bar>"
  have "2 powi g \<le> \<bar>x\<bar>" unfolding g_def using x0 by (intro ilog2_lower) simp
  also have "\<bar>x\<bar> < 2 ^ 53 * 2 powi e"
  proof -
    have "(of_int \<bar>m\<bar> :: rat) < of_int (2 ^ 53)" using assms by (simp only: of_int_less_iff)
    then show ?thesis unfolding ax by (simp add: zero_less_power_int)
  qed
  also have "(2::rat) ^ 53 * 2 powi e = 2 powi (53 + e)"
    by (simp add: power_int_add)
  finally have lt: "(2::rat) powi g < 2 powi (53 + e)" .
  have "g < 53 + e"
  proof (rule ccontr)
    assume "\<not> g < 53 + e"
    then have "(2::rat) powi (53 + e) \<le> 2 powi g"
      by (intro power_int_increasing) auto
    with lt show False by simp
  qed
  then obtain d :: nat where d: "e = g - 52 + int d"
    using that[of "nat (e - (g - 52))"] by simp
  have "x / 2 powi (g - 52) = of_int m * 2 powi (e - (g - 52))"
    by (simp add: x_def power_int_diff)
  also have "\<dots> = of_int (m * 2 ^ d)" using d by (simp add: power_int_def)
  finally have "x / 2 powi (g - 52) = of_int (m * 2 ^ d)" .
  then have "of_int (py_round (x / 2 powi (g - 52))) * 2 powi (g - 52) = x / 2 powi (g - 52) * 2 powi (g - 52)"
    by (simp only: py_round_of_int)
  also have "\<dots> = x" by simp
  finally show ?thesis using x0 by (simp add: fl_def Let_def g_def x_def)
qed


lemma fl_code [code]:
  "fl x = (let (p, q) = quotient_of x
           in if \<bar>p\<bar> < 2 ^ 53 \<and> q = 2 ^ (bit_length q - 1) then x
              else if x = 0 then 0
              else let u = 2 powi (ilog2 \<bar>x\<bar> - 52)
                   in of_int (py_round (x / u)) * u)"
proof -
  obtain p q where pq: "quotient_of x = (p, q)" by (cases "quotient_of x")
  show ?thesis
  proof (cases "\<bar>p\<bar> < 2 ^ 53 \<and> q = 2 ^ (bit_length q - 1)")
    case True
    define k where "k = bit_length q - 1"
    from True have q: "q = 2 ^ k" by (simp add: k_def)
    have "x = of_int p / of_int q" using pq by (rule quotient_of_div)
    also have "\<dots> = of_int p * 2 powi (- int k)"
      unfolding q by (simp add: power_int_minus field_simps)
    finally have x: "x = of_int p * 2 powi (- int k)" .
    from True have "fl (of_int p * 2 powi (- int k)) = of_int p * 2 powi (- int k)"
      by (intro fl_exact) simp
    then have "fl x = x" unfolding x .
    with True pq show ?thesis by simp
  next
    case False
    with pq show ?thesis by (auto simp: fl_def)
  qed
qed



lemma ticks_per_bar_Inr:
  "ticks_per_bar tpb num den = Inr L \<Longrightarrow> 1 \<le> L"
  by (auto simp: ticks_per_bar_def Let_def split: sum.splits)

lemma fl_eq_0_iff: "fl x = 0 \<longleftrightarrow> x = 0"
proof
  assume f: "fl x = 0"
  show "x = 0"
  proof (rule ccontr)
    assume x0: "x \<noteq> 0"
    define u :: rat where "u = 2 powi (ilog2 \<bar>x\<bar> - 52)"
    have u: "0 < u" by (simp add: u_def zero_less_power_int)
    have "2 powi (ilog2 \<bar>x\<bar>) \<le> \<bar>x\<bar>" using x0 by (intro ilog2_lower) simp
    then have "2 powi (ilog2 \<bar>x\<bar>) / u \<le> \<bar>x\<bar> / u"
      using u by (simp add: divide_right_mono)
    moreover have "2 powi (ilog2 \<bar>x\<bar>) / u = (2::rat) ^ 52"
      by (simp add: u_def power_int_diff)
    ultimately have "(2::rat) ^ 52 \<le> \<bar>x\<bar> / u" by (simp only:)
    moreover have "(1::rat) \<le> 2 ^ 52" by simp
    ultimately have "1 \<le> \<bar>x\<bar> / u" by (rule order_trans[rotated])
    then have big: "1 \<le> \<bar>x / u\<bar>" using u by (simp only: abs_divide abs_of_pos[OF u])
    have "py_round (x / u) \<noteq> 0"
    proof (cases "0 \<le> x / u")
      case True
      with big have "1 \<le> x / u" by simp
      from py_round_mono[OF this] show ?thesis using py_round_of_int[of 1] by simp
    next
      case False
      with big have "x / u \<le> - 1" by simp
      from py_round_mono[OF this] show ?thesis using py_round_of_int[of "- 1"] by simp
    qed
    with f x0 u show False by (simp add: fl_def Let_def u_def)
  qed
next
  assume "x = 0"
  then show "fl x = 0" by (simp add: fl_def)
qed

lemma py_float_eq_0_iff: "py_float n = 0 \<longleftrightarrow> n = 0"
  by (simp add: py_float_def fl_eq_0_iff)


lemma ticks_per_bar_zero:
  "ticks_per_bar tpb num 0 = Inl ZeroDivisionError"
  by (simp add: ticks_per_bar_def float_truediv_def py_float_eq_0_iff)

section \<open>Bar length\<close>




section \<open>Safe bars\<close>

lemma replay_simps [simp]:
  "replay [] a = a"
  "replay ((t, m) # evs) a = replay evs (track_voice m a)"
  "replay (xs @ ys) a = replay ys (replay xs a)"
  by (simp_all add: replay_def)

lemma track_voice_set_time [simp]:
  "\<not> is_meta m \<Longrightarrow> track_voice (set_time t m) a = track_voice m a"
  by (cases m) (simp_all add: track_voice_def)

lemma is_meta_set_time [simp]: "is_meta (set_time t m) = is_meta m"
  by (cases m) simp_all

lemma set_time_set_time [simp]: "set_time t (set_time t' m) = set_time t m"
  by (cases m) simp_all

lemma skip_loop_spec:
  "skip_loop start evs active = (evs', active') \<Longrightarrow>
     \<exists>pre. evs = pre @ evs' \<and> active' = replay pre active \<and> (\<forall>e \<in> set pre. fst e < start)
       \<and> (evs' \<noteq> [] \<longrightarrow> start \<le> fst (hd evs'))"
proof (induction evs arbitrary: active)
  case Nil
  then show ?case by simp
next
  case (Cons x evs)
  obtain t m where x: "x = (t, m)" by (cases x)
  show ?case
  proof (cases "t < start")
    case True
    with Cons.prems x have "skip_loop start evs (track_voice m active) = (evs', active')" by simp
    from Cons.IH[OF this] obtain pre where
      "evs = pre @ evs'" "active' = replay pre (track_voice m active)"
      "\<forall>e \<in> set pre. fst e < start" "evs' \<noteq> [] \<longrightarrow> start \<le> fst (hd evs')" by blast
    with True x show ?thesis by (intro exI[of _ "(t, m) # pre"]) simp
  next
    case False
    with Cons.prems x show ?thesis by (intro exI[of _ "[]"]) auto
  qed
qed

lemma scan_loop_spec:
  "scan_loop start end_t evs active acc = (evs', active', bar_abs) \<Longrightarrow>
     \<exists>mid. evs = mid @ evs' \<and> active' = replay mid active
       \<and> bar_abs = acc @ map (\<lambda>e. (fst e - start, set_time 0 (snd e))) mid
       \<and> (\<forall>e \<in> set mid. fst e < end_t) \<and> (evs' \<noteq> [] \<longrightarrow> end_t \<le> fst (hd evs'))"
proof (induction evs arbitrary: active acc)
  case Nil
  then show ?case by simp
next
  case (Cons x evs)
  obtain t m where x: "x = (t, m)" by (cases x)
  show ?case
  proof (cases "t < end_t")
    case True
    with Cons.prems x have "scan_loop start end_t evs (track_voice m active)
        (acc @ [(t - start, set_time 0 m)]) = (evs', active', bar_abs)" by simp
    from Cons.IH[OF this] obtain mid where
      "evs = mid @ evs'" "active' = replay mid (track_voice m active)"
      "bar_abs = (acc @ [(t - start, set_time 0 m)]) @ map (\<lambda>e. (fst e - start, set_time 0 (snd e))) mid"
      "\<forall>e \<in> set mid. fst e < end_t" "evs' \<noteq> [] \<longrightarrow> end_t \<le> fst (hd evs')" by blast
    with True x show ?thesis by (intro exI[of _ "(t, m) # mid"]) simp
  next
    case False
    with Cons.prems x show ?thesis by (intro exI[of _ "[]"]) auto
  qed
qed

lemma rel_track_loop_fst [simp]: "map fst (rel_track_loop last_t xs) = map fst xs"
  by (induction last_t xs rule: rel_track_loop.induct) simp_all

lemma rel_track_loop_msgs [simp]:
  "map (\<lambda>e. set_time 0 (snd e)) (rel_track_loop last_t xs) = map (\<lambda>e. set_time 0 (snd e)) xs"
  by (induction last_t xs rule: rel_track_loop.induct) simp_all

lemma rel_track_loop_Nil [simp]: "rel_track_loop last_t xs = [] \<longleftrightarrow> xs = []"
  by (cases xs) auto

lemma replay_rel_track_loop:
  "\<forall>e \<in> set xs. \<not> is_meta (snd e) \<Longrightarrow> replay (rel_track_loop last_t xs) a = replay xs a"
  by (induction last_t xs arbitrary: a rule: rel_track_loop.induct) simp_all

lemma replay_shifted:
  "\<forall>e \<in> set xs. \<not> is_meta (snd e) \<Longrightarrow>
     replay (map (\<lambda>e. (fst e - start, set_time 0 (snd e))) xs) a = replay xs a"
  by (induction xs arbitrary: a) auto

lemma sorted_tail_ge:
  assumes "sorted (map fst xs)" "xs \<noteq> [] \<longrightarrow> c \<le> fst (hd xs)"
  shows "\<forall>e \<in> set xs. (c :: int) \<le> fst e"
  using assms by (cases xs) auto

lemma filter_split:
  assumes "\<forall>e \<in> set a. P e" "\<forall>e \<in> set b. \<not> P e"
  shows "filter P (a @ b) = a"
  using assms by (simp add: filter_empty_conv[THEN iffD2] filter_id_conv[THEN iffD2])

lemma filter_none: "\<forall>e \<in> set xs. \<not> P e \<Longrightarrow> filter P xs = []"
  by (induction xs) auto

lemma filter_all: "\<forall>e \<in> set xs. P e \<Longrightarrow> filter P xs = xs"
  by (induction xs) auto

lemma bar_step_inv:
  assumes srt: "sorted (map fst events)"
    and chan: "\<forall>e \<in> set events. \<not> is_meta (snd e)"
    and L: "0 < L"
    and ev: "events = done @ rest"
    and act: "active = replay done []"
    and dn: "\<forall>e \<in> set done. fst e < int n * L"
    and safe: "\<forall>bar \<in> set safe_bars. good_bar L events bar"
    and step: "bar_step L n (rest, active, safe_bars) = (rest', active', safe_bars')"
  shows "\<exists>done'. events = done' @ rest' \<and> active' = replay done' []
           \<and> (\<forall>e \<in> set done'. fst e < int (Suc n) * L)
           \<and> (\<forall>bar \<in> set safe_bars'. good_bar L events bar)"
proof -
  let ?start = "int n * L"
  let ?end = "(int n + 1) * L"
  obtain rest1 act1 where sk: "skip_loop ?start rest active = (rest1, act1)"
    by (cases "skip_loop ?start rest active")
  obtain rest2 act2 bar_abs where sc: "scan_loop ?start ?end rest1 act1 [] = (rest2, act2, bar_abs)"
    by (metis prod_cases3)
  have res: "rest' = rest2" "active' = act2"
    "safe_bars' = (if act1 = [] \<and> act2 = [] \<and> bar_abs \<noteq> []
                   then safe_bars @ [rel_track_loop 0 (sort_key fst bar_abs)] else safe_bars)"
    using step unfolding bar_step_def by (auto simp: Let_def sk sc)
  from skip_loop_spec[OF sk] obtain pre where
    pre: "rest = pre @ rest1" "act1 = replay pre active" "\<forall>e \<in> set pre. fst e < ?start"
         "rest1 \<noteq> [] \<longrightarrow> ?start \<le> fst (hd rest1)" by blast
  from scan_loop_spec[OF sc] obtain mid where
    mid: "rest1 = mid @ rest2" "act2 = replay mid act1"
         "bar_abs = map (\<lambda>e. (fst e - ?start, set_time 0 (snd e))) mid"
         "\<forall>e \<in> set mid. fst e < ?end" "rest2 \<noteq> [] \<longrightarrow> ?end \<le> fst (hd rest2)" by auto
  have whole: "events = (done @ pre) @ mid @ rest2" using ev pre(1) mid(1) by simp
  have s1: "sorted (map fst rest1)" using srt whole mid(1) by (simp add: sorted_append)
  have s2: "sorted (map fst rest2)" using srt whole by (simp add: sorted_append)
  have smid: "sorted (map fst mid)" using srt whole by (simp add: sorted_append)
  have ge1: "\<forall>e \<in> set rest1. ?start \<le> fst e" using sorted_tail_ge[OF s1 pre(4)] .
  have ge2: "\<forall>e \<in> set rest2. ?end \<le> fst e" using sorted_tail_ge[OF s2 mid(5)] .
  have lt1: "\<forall>e \<in> set (done @ pre). fst e < ?start" using dn pre(3) by auto
  have se: "?start \<le> ?end" using L by (simp add: algebra_simps)
  have midr: "\<forall>e \<in> set mid. ?start \<le> fst e \<and> fst e < ?end" using ge1 mid(1,4) by auto
  have chmid: "\<forall>e \<in> set mid. \<not> is_meta (snd e)" using chan whole by auto
  have a1: "act1 = replay (done @ pre) []" using act pre(2) by simp
  have a2: "act2 = replay ((done @ pre) @ mid) []" using a1 mid(2) by simp
  have before: "filter (\<lambda>e. fst e < ?start) events = done @ pre"
  proof -
    have "\<forall>e \<in> set (mid @ rest2). \<not> fst e < ?start" using ge1 mid(1) by (simp add: not_less)
    from filter_split[OF lt1 this] show ?thesis using whole by simp
  qed
  have window: "filter (\<lambda>e. ?start \<le> fst e \<and> fst e < ?end) events = mid"
  proof -
    have "filter (\<lambda>e. ?start \<le> fst e \<and> fst e < ?end) (done @ pre) = []"
    proof (rule filter_none, rule ballI)
      fix e assume "e \<in> set (done @ pre)"
      with lt1 have "fst e < ?start" by blast
      then show "\<not> (?start \<le> fst e \<and> fst e < ?end)" by simp
    qed
    moreover have "filter (\<lambda>e. ?start \<le> fst e \<and> fst e < ?end) rest2 = []"
    proof (rule filter_none, rule ballI)
      fix e assume "e \<in> set rest2"
      with ge2 have "?end \<le> fst e" by blast
      then show "\<not> (?start \<le> fst e \<and> fst e < ?end)" by simp
    qed
    moreover have "filter (\<lambda>e. ?start \<le> fst e \<and> fst e < ?end) mid = mid"
      using midr by (rule filter_all)
    ultimately show ?thesis using whole by simp
  qed
  have done': "\<forall>e \<in> set ((done @ pre) @ mid). fst e < int (Suc n) * L"
  proof
    fix e assume "e \<in> set ((done @ pre) @ mid)"
    then consider "e \<in> set (done @ pre)" | "e \<in> set mid" by auto
    then have "fst e < ?end"
    proof cases
      case 1
      with lt1 have "fst e < ?start" by blast
      with se show ?thesis by simp
    next
      case 2
      with mid(4) show ?thesis by blast
    qed
    then show "fst e < int (Suc n) * L" by (simp add: algebra_simps)
  qed
  have newbar: "good_bar L events (rel_track_loop 0 (sort_key fst bar_abs))"
    if c: "act1 = []" "act2 = []" "bar_abs \<noteq> []"
  proof -
    have sb: "sorted (map fst bar_abs)"
      using smid unfolding mid(3) by (simp add: sorted_map comp_def)
    then have id: "sort_key fst bar_abs = bar_abs" by (rule sort_key_id_if_sorted)
    have chb: "\<forall>e \<in> set bar_abs. \<not> is_meta (snd e)" using chmid by (auto simp: mid(3))
    have r: "replay (rel_track_loop 0 bar_abs) [] = []"
      using replay_rel_track_loop[OF chb, of 0 "[]"] replay_shifted[OF chmid, of ?start "[]"]
        mid(2) c(1,2) by (simp add: mid(3))
    have rng: "\<forall>e \<in> set (rel_track_loop 0 bar_abs). 0 \<le> fst e \<and> fst e < L"
    proof
      fix e assume "e \<in> set (rel_track_loop 0 bar_abs)"
      then have "fst e \<in> set (map fst (rel_track_loop 0 bar_abs))" by (simp only: set_map) (rule imageI)
      then have "fst e \<in> set (map (\<lambda>e. fst e - ?start) mid)"
        by (simp only: rel_track_loop_fst mid(3)) (simp add: comp_def)
      then obtain e' where "e' \<in> set mid" "fst e = fst e' - ?start" by auto
      with midr show "0 \<le> fst e \<and> fst e < L" by (auto simp: algebra_simps)
    qed
    have f: "map fst (rel_track_loop 0 bar_abs) = map (\<lambda>e. fst e - ?start) mid"
      by (simp add: mid(3) comp_def)
    have m: "map (\<lambda>e. set_time 0 (snd e)) (rel_track_loop 0 bar_abs)
               = map (\<lambda>e. set_time 0 (snd e)) mid"
      by (simp add: mid(3) comp_def)
    have att: "replay (filter (\<lambda>e. fst e < int n * L) events) [] = []"
      using before a1 c(1) by simp
    show ?thesis
      unfolding good_bar_def id
    proof (intro conjI)
      show "rel_track_loop 0 bar_abs \<noteq> []" using c(3) by simp
      show "replay (rel_track_loop 0 bar_abs) [] = []" by (rule r)
      show "\<forall>e \<in> set (rel_track_loop 0 bar_abs). 0 \<le> fst e \<and> fst e < L" by (rule rng)
      show "sorted (map fst (rel_track_loop 0 bar_abs))" using sb by simp
      show "\<exists>b. replay (filter (\<lambda>e. fst e < int b * L) events) [] = [] \<and>
           map fst (rel_track_loop 0 bar_abs) = map (\<lambda>e. fst e - int b * L)
             (filter (\<lambda>e. int b * L \<le> fst e \<and> fst e < (int b + 1) * L) events) \<and>
           map (\<lambda>e. set_time 0 (snd e)) (rel_track_loop 0 bar_abs) = map (\<lambda>e. set_time 0 (snd e))
             (filter (\<lambda>e. int b * L \<le> fst e \<and> fst e < (int b + 1) * L) events)"
        using att f m window by (intro exI[of _ n]) simp
    qed
  qed
  show ?thesis
    using whole a2 done' safe newbar unfolding res
    by (intro exI[of _ "(done @ pre) @ mid"]) auto
qed

lemma bars_fold_inv:
  assumes srt: "sorted (map fst events)"
    and chan: "\<forall>e \<in> set events. \<not> is_meta (snd e)"
    and L: "0 < L"
  shows "\<exists>rest active safe_bars done.
           fold (bar_step L) [0..<n] (events, [], []) = (rest, active, safe_bars)
           \<and> events = done @ rest \<and> active = replay done []
           \<and> (\<forall>e \<in> set done. fst e < int n * L)
           \<and> (\<forall>bar \<in> set safe_bars. good_bar L events bar)"
proof (induction n)
  case 0
  show ?case by (intro exI[of _ events] exI[of _ "[]"]) simp
next
  case (Suc n)
  then obtain rest active safe_bars "done" where
    i: "fold (bar_step L) [0..<n] (events, [], []) = (rest, active, safe_bars)"
       "events = done @ rest" "active = replay done []"
       "\<forall>e \<in> set done. fst e < int n * L" "\<forall>bar \<in> set safe_bars. good_bar L events bar"
    by blast
  obtain rest' active' safe_bars' where
    st: "bar_step L n (rest, active, safe_bars) = (rest', active', safe_bars')"
    by (metis prod_cases3)
  from bar_step_inv[OF srt chan L i(2,3,4,5) st] obtain done' where
    "events = done' @ rest'" "active' = replay done' []"
    "\<forall>e \<in> set done'. fst e < int (Suc n) * L" "\<forall>bar \<in> set safe_bars'. good_bar L events bar"
    by blast
  moreover have "fold (bar_step L) [0..<Suc n] (events, [], []) = (rest', active', safe_bars')"
    using i(1) st by simp
  ultimately show ?case by blast
qed

lemma track_abs_channel: "\<forall>e \<in> set (track_abs t tr). is_channel_msg (snd e)"
  by (induction t tr rule: track_abs.induct) auto

lemma iter_abs_messages_channel: "\<forall>e \<in> set (iter_abs_messages mid). \<not> is_meta (snd e)"
  using track_abs_channel by (fastforce simp: iter_abs_messages_def is_channel_msg_def)

lemma iter_abs_messages_sorted: "sorted (map fst (iter_abs_messages mid))"
  by (simp add: iter_abs_messages_def)

lemma extract_clean_bars_good:
  assumes "extract_clean_bars mid = Inr bars" "bar \<in> set bars"
  shows "\<exists>L. ticks_per_bar (ticks_per_beat mid) (fst (get_time_signature mid))
                 (snd (get_time_signature mid)) = Inr L
             \<and> good_bar L (iter_abs_messages mid) bar"
proof -
  obtain num den where ts: "get_time_signature mid = (num, den)"
    by (cases "get_time_signature mid")
  from assms(1) obtain L where L: "ticks_per_bar (ticks_per_beat mid) num den = Inr L"
    by (auto simp: extract_clean_bars_def ts split: sum.splits)
  from ticks_per_bar_Inr[OF L] have pos: "0 < L" by simp
  define events where "events = iter_abs_messages mid"
  define n where "n = nat (max 1 (fst (last events) div L + 1))"
  from assms L have ne: "events \<noteq> []"
    by (auto simp: extract_clean_bars_def ts events_def Let_def split: if_splits)
  from bars_fold_inv[OF iter_abs_messages_sorted[of mid] iter_abs_messages_channel[of mid] pos,
      where n = n]
  obtain rest active safe_bars where
    f: "fold (bar_step L) [0..<n] (events, [], []) = (rest, active, safe_bars)"
       "\<forall>bar \<in> set safe_bars. good_bar L events bar"
    unfolding events_def by blast
  from assms(1) L ne f(1) have "bars = safe_bars"
    by (simp add: extract_clean_bars_def ts events_def[symmetric] Let_def n_def)
  with assms(2) f(2) L ts show ?thesis by (auto simp: events_def)
qed

text \<open>
  C4. Every bar that \<open>extract_clean_bars\<close> returns has at least one event, and replaying
  its events in order from the empty voice map ends with the empty voice map. The bar holds
  the events of one bar window \<open>b\<close> of the source (their ticks taken relative to the start
  \<open>b * L\<close> of the window, their messages up to the delta time), and replaying all events of
  the source strictly before that start tick from the empty voice map gives the empty voice
  map as well.
\<close>

theorem clean_bars_start_and_end_silent:
  assumes "extract_clean_bars mid = Inr bars" and "bar \<in> set bars"
  shows "bar \<noteq> [] \<and> replay bar [] = [] \<and>
         (\<exists>L b. ticks_per_bar (ticks_per_beat mid) (fst (get_time_signature mid))
                   (snd (get_time_signature mid)) = Inr L \<and>
            replay (filter (\<lambda>e. fst e < int b * L) (iter_abs_messages mid)) [] = [] \<and>
            map fst bar = map (\<lambda>e. fst e - int b * L)
              (filter (\<lambda>e. int b * L \<le> fst e \<and> fst e < (int b + 1) * L) (iter_abs_messages mid)) \<and>
            map (\<lambda>e. set_time 0 (snd e)) bar = map (\<lambda>e. set_time 0 (snd e))
              (filter (\<lambda>e. int b * L \<le> fst e \<and> fst e < (int b + 1) * L) (iter_abs_messages mid)))"
  using extract_clean_bars_good[OF assms] unfolding good_bar_def by blast

theorem clean_bars_start_and_end_silent_witness:
  "second_bar \<noteq> [] \<and> replay second_bar [] = [] \<and>
   (\<exists>L b. ticks_per_bar (ticks_per_beat two_bars) (fst (get_time_signature two_bars))
             (snd (get_time_signature two_bars)) = Inr L \<and>
      replay (filter (\<lambda>e. fst e < int b * L) (iter_abs_messages two_bars)) [] = [] \<and>
      map fst second_bar = map (\<lambda>e. fst e - int b * L)
        (filter (\<lambda>e. int b * L \<le> fst e \<and> fst e < (int b + 1) * L) (iter_abs_messages two_bars)) \<and>
      map (\<lambda>e. set_time 0 (snd e)) second_bar = map (\<lambda>e. set_time 0 (snd e))
        (filter (\<lambda>e. int b * L \<le> fst e \<and> fst e < (int b + 1) * L) (iter_abs_messages two_bars)))"
proof -
  have e: "extract_clean_bars two_bars = Inr [first_bar, second_bar]"
    by code_simp
  have m: "second_bar \<in> set [first_bar, second_bar]"
    by simp
  show ?thesis by (rule clean_bars_start_and_end_silent[OF e m])
qed

text \<open>
  C10. In every bar that \<open>extract_clean_bars\<close> returns, every bar-relative tick is at
  least 0 and below the bar length \<open>ticks_per_bar\<close> gives for the source, and the relative
  ticks do not decrease along the bar.
\<close>

theorem clean_bar_ticks_in_range:
  assumes "extract_clean_bars mid = Inr bars" and "bar \<in> set bars"
  shows "\<exists>L. ticks_per_bar (ticks_per_beat mid) (fst (get_time_signature mid))
                (snd (get_time_signature mid)) = Inr L \<and>
             (\<forall>(rt, m) \<in> set bar. 0 \<le> rt \<and> rt < L) \<and> sorted (map fst bar)"
  using extract_clean_bars_good[OF assms] unfolding good_bar_def by fastforce

theorem clean_bar_ticks_in_range_witness:
  "\<exists>L. ticks_per_bar (ticks_per_beat late_note) (fst (get_time_signature late_note))
           (snd (get_time_signature late_note)) = Inr L \<and>
        (\<forall>(rt, m) \<in> set late_bar. 0 \<le> rt \<and> rt < L) \<and> sorted (map fst late_bar)"
proof -
  have e: "extract_clean_bars late_note = Inr [late_bar]"
    unfolding late_note_def late_bar_def by code_simp
  have m: "late_bar \<in> set [late_bar]"
    by simp
  show ?thesis by (rule clean_bar_ticks_in_range[OF e m])
qed

section \<open>The dice table\<close>

subsection \<open>Shuffling\<close>

lemma length_fold_shuffle_step:
  "length (fst (fold (shuffle_step R) is (x, g))) = length x"
  by (induction "is" arbitrary: x g) (auto simp: shuffle_step_def split: prod.splits)

lemma length_shuffle: "shuffle R g x = (y, g') \<Longrightarrow> length y = length x"
  using length_fold_shuffle_step[of R "rev [1..<length x]" x g] by (simp add: shuffle_def)

lemma mset_fold_shuffle_step:
  assumes "rng_ok R" "\<forall>i \<in> set is. i < length x"
  shows "mset (fst (fold (shuffle_step R) is (x, g))) = mset x"
  using assms(2)
proof (induction "is" arbitrary: x g)
  case Nil
  then show ?case by simp
next
  case (Cons i "is")
  obtain j g' where r: "randbelow R g (i + 1) = (j, g')" by (cases "randbelow R g (i + 1)")
  from assms(1) have "fst (randbelow R g (i + 1)) < i + 1" by (simp add: rng_ok_def)
  with r have j: "j < i + 1" by simp
  from Cons.prems have i: "i < length x" by simp
  with j have jl: "j < length x" by simp
  define x' where "x' = x[i := x ! j, j := x ! i]"
  have m: "mset x' = mset x" unfolding x'_def by (rule mset_swap[OF jl i])
  have l: "length x' = length x" by (simp add: x'_def)
  have "fold (shuffle_step R) (i # is) (x, g) = fold (shuffle_step R) is (x', g')"
    using r by (simp add: shuffle_step_def x'_def)
  moreover have "mset (fst (fold (shuffle_step R) is (x', g'))) = mset x'"
    using Cons.prems l by (intro Cons.IH) simp
  ultimately show ?case using m by simp
qed

lemma mset_shuffle:
  "rng_ok R \<Longrightarrow> shuffle R g x = (y, g') \<Longrightarrow> mset y = mset x"
  using mset_fold_shuffle_step[of R "rev [1..<length x]" x g] by (simp add: shuffle_def)

lemma phrase_at_Inr:
  "shuffled \<noteq> [] \<Longrightarrow> \<exists>phrase. phrase_at shuffled pos = Inr phrase \<and> length phrase = 4
      \<and> set phrase \<subseteq> set shuffled"
  by (auto simp: phrase_at_def phrase_len_bars_def)

lemma choices_loop_Inr:
  assumes "shuffled \<noteq> []"
  shows "\<exists>pos' new. choices_loop n shuffled (pos, ch) = Inr (pos', ch @ new) \<and> length new = n
      \<and> (\<forall>phrase \<in> set new. length phrase = 4 \<and> set phrase \<subseteq> set shuffled)"
proof (induction n arbitrary: pos ch)
  case 0
  then show ?case by simp
next
  case (Suc n)
  from phrase_at_Inr[OF assms, of pos] obtain phrase where
    p: "phrase_at shuffled pos = Inr phrase" "length phrase = 4" "set phrase \<subseteq> set shuffled"
    by blast
  from Suc.IH[of "(pos + phrase_len_bars) mod length shuffled" "ch @ [phrase]"]
  obtain pos' new where
    n: "choices_loop n shuffled ((pos + phrase_len_bars) mod length shuffled, ch @ [phrase])
          = Inr (pos', (ch @ [phrase]) @ new)" "length new = n"
       "\<forall>phrase \<in> set new. length phrase = 4 \<and> set phrase \<subseteq> set shuffled"
    by blast
  show ?case
    apply (rule exI[of _ pos'], rule exI[of _ "phrase # new"])
    using p n by simp
qed

lemma table_loop_dice_Inr:
  assumes "pool \<noteq> []"
  shows "\<exists>g' new. table_loop_dice R n (g, pool, t) = Inr (g', pool, t @ new) \<and> length new = n
      \<and> table_shape new \<and> (rng_ok R \<longrightarrow> (\<forall>c \<in> set new. \<forall>p \<in> set c. set p \<subseteq> set pool))"
proof (induction n arbitrary: g t)
  case 0
  then show ?case by (simp add: table_shape_def)
next
  case (Suc n)
  obtain shuffled g1 where s: "shuffle R g pool = (shuffled, g1)" by (cases "shuffle R g pool")
  from length_shuffle[OF s] assms have ne: "shuffled \<noteq> []" by auto
  from choices_loop_Inr[OF ne, of 11 0 "[]"] obtain pos' c where
    c: "choices_loop 11 shuffled (0, []) = Inr (pos', c)" "length c = 11"
       "\<forall>phrase \<in> set c. length phrase = 4 \<and> set phrase \<subseteq> set shuffled"
    by auto
  from Suc.IH[of g1 "t @ [c]"] obtain g' new where
    n: "table_loop_dice R n (g1, pool, t @ [c]) = Inr (g', pool, (t @ [c]) @ new)"
       "length new = n" "table_shape new"
       "rng_ok R \<longrightarrow> (\<forall>c \<in> set new. \<forall>p \<in> set c. set p \<subseteq> set pool)"
    by blast
  have sub: "rng_ok R \<Longrightarrow> set shuffled = set pool"
    using mset_shuffle[OF _ s] by (metis set_mset_mset)
  show ?case
    apply (rule exI[of _ g'], rule exI[of _ "c # new"])
    using s c n sub by (auto simp: table_shape_def)
qed

lemma table_loop_spin_Inr:
  assumes "pool \<noteq> []"
  shows "\<exists>g' pool' new. table_loop_spin R n (g, pool, t) = Inr (g', pool', t @ new)
      \<and> length new = n \<and> table_shape new \<and> length pool' = length pool
      \<and> (rng_ok R \<longrightarrow> mset pool' = mset pool \<and> (\<forall>c \<in> set new. \<forall>p \<in> set c. set p \<subseteq> set pool))"
  using assms
proof (induction n arbitrary: g t pool)
  case 0
  then show ?case by (simp add: table_shape_def)
next
  case (Suc n)
  obtain shuffled g1 where s: "shuffle R g pool = (shuffled, g1)" by (cases "shuffle R g pool")
  from length_shuffle[OF s] Suc.prems have ne: "shuffled \<noteq> []" by auto
  from choices_loop_Inr[OF ne, of 11 0 "[]"] obtain pos' c where
    c: "choices_loop 11 shuffled (0, []) = Inr (pos', c)" "length c = 11"
       "\<forall>phrase \<in> set c. length phrase = 4 \<and> set phrase \<subseteq> set shuffled"
    by auto
  from Suc.IH[OF ne, of g1 "t @ [c]"] obtain g' pool' new where
    n: "table_loop_spin R n (g1, shuffled, t @ [c]) = Inr (g', pool', (t @ [c]) @ new)"
       "length new = n" "table_shape new" "length pool' = length shuffled"
       "rng_ok R \<longrightarrow> mset pool' = mset shuffled
          \<and> (\<forall>c \<in> set new. \<forall>p \<in> set c. set p \<subseteq> set shuffled)"
    by blast
  have m: "rng_ok R \<Longrightarrow> mset shuffled = mset pool"
    using mset_shuffle[OF _ s] .
  then have sub: "rng_ok R \<Longrightarrow> set shuffled = set pool"
    by (metis set_mset_mset)
  show ?case
    apply (rule exI[of _ g'], rule exI[of _ pool'], rule exI[of _ "c # new"])
    using s c n m sub length_shuffle[OF s] by (auto simp: table_shape_def)
qed




lemma two_bars_pool_loop:
  "pool_loop [(''a.mid'', two_bars)] ([], None, None) = Inr (two_bars_pool, Some 500000, Some (4, 4))"
  unfolding two_bars_def two_bars_pool_def by code_simp

lemma table_loop_dice_pool:
  "table_loop_dice R n (g, pool, t) = Inr (g', pool', t') \<Longrightarrow> pool' = pool"
  by (induction n arbitrary: g t) (auto split: prod.splits sum.splits)

lemma table_loop_spin_pool:
  "rng_ok R \<Longrightarrow> table_loop_spin R n (g, pool, t) = Inr (g', pool', t') \<Longrightarrow> mset pool' = mset pool"
proof (induction n arbitrary: g t pool)
  case 0
  then show ?case by simp
next
  case (Suc n)
  obtain shuffled g1 where s: "shuffle R g pool = (shuffled, g1)" by (cases "shuffle R g pool")
  from Suc.prems(2) s obtain pos c where
    "table_loop_spin R n (g1, shuffled, t @ [c]) = Inr (g', pool', t')"
    by (auto split: sum.splits)
  from Suc.IH[OF Suc.prems(1) this] mset_shuffle[OF Suc.prems(1) s] show ?case by simp
qed

lemma rng_ok_counter_random: "rng_ok counter_random"
  by (simp add: rng_ok_def counter_random_def)

text \<open>
  C7. From a pool that is not empty, the table loop of either program returns, for any
  number of turns, one table per turn, each with exactly 11 phrases of exactly 4 bars.
\<close>

theorem dice_table_shape:
  assumes "pool \<noteq> []"
  shows "(\<exists>g' pool' t. table_loop_dice R n (g, pool, []) = Inr (g', pool', t) \<and> length t = n \<and>
            (\<forall>choices \<in> set t. length choices = 11 \<and>
               (\<forall>phrase \<in> set choices. length phrase = 4))) \<and>
         (\<exists>g' pool' t. table_loop_spin R n (g, pool, []) = Inr (g', pool', t) \<and> length t = n \<and>
            (\<forall>choices \<in> set t. length choices = 11 \<and>
               (\<forall>phrase \<in> set choices. length phrase = 4)))"
proof
  from table_loop_dice_Inr[OF assms, of R n g "[]"]
  show "\<exists>g' pool' t. table_loop_dice R n (g, pool, []) = Inr (g', pool', t) \<and> length t = n \<and>
            (\<forall>choices \<in> set t. length choices = 11 \<and>
               (\<forall>phrase \<in> set choices. length phrase = 4))"
    unfolding table_shape_def by fastforce
next
  from table_loop_spin_Inr[OF assms, of R n g "[]"]
  show "\<exists>g' pool' t. table_loop_spin R n (g, pool, []) = Inr (g', pool', t) \<and> length t = n \<and>
            (\<forall>choices \<in> set t. length choices = 11 \<and>
               (\<forall>phrase \<in> set choices. length phrase = 4))"
    unfolding table_shape_def by fastforce
qed

theorem dice_table_shape_witness:
  "two_bars_pool \<noteq> [] \<and>
   (\<exists>g' pool' t. table_loop_spin counter_random 3 (0, two_bars_pool, []) = Inr (g', pool', t)
      \<and> length t = 3 \<and>
      (\<forall>choices \<in> set t. length choices = 11 \<and> (\<forall>phrase \<in> set choices. length phrase = 4)))"
proof -
  have ne: "two_bars_pool \<noteq> []" by (simp add: two_bars_pool_def)
  from dice_table_shape[OF ne, of counter_random 3 0] ne show ?thesis by blast
qed



text \<open>
  C9 (as the code has it). The table loop of \<^verbatim>\<open>mozart_dice_game_gui.py\<close> shuffles a copy
  and hands the pool on unchanged. The table loop of \<^verbatim>\<open>spin_game_gui.py\<close> shuffles the
  pool itself: after any number of turns the pool has the same elements with the same
  multiplicities, in the order the shuffles left. Assembly reads the table only.
\<close>

theorem pool_after_table_generation:
  "(table_loop_dice R n (g, pool, t) = Inr (g', pool', t') \<longrightarrow> pool' = pool) \<and>
   (rng_ok R \<and> table_loop_spin R n (g, pool, t) = Inr (g'', pool'', t'') \<longrightarrow> mset pool'' = mset pool)"
proof (intro conjI impI)
  assume "table_loop_dice R n (g, pool, t) = Inr (g', pool', t')"
  then show "pool' = pool" by (rule table_loop_dice_pool)
next
  assume "rng_ok R \<and> table_loop_spin R n (g, pool, t) = Inr (g'', pool'', t'')"
  then have "rng_ok R" and "table_loop_spin R n (g, pool, t) = Inr (g'', pool'', t'')"
    by simp_all
  then show "mset pool'' = mset pool" by (rule table_loop_spin_pool)
qed

theorem pool_after_table_generation_witness:
  "table_loop_dice counter_random 1 (0, two_bars_pool, [])
     = Inr (1, two_bars_pool, [replicate 11 (rev two_bars_pool @ rev two_bars_pool)])
   \<and> rng_ok counter_random
   \<and> table_loop_spin counter_random 1 (0, two_bars_pool, [])
     = Inr (1, rev two_bars_pool, [replicate 11 (rev two_bars_pool @ rev two_bars_pool)])
   \<and> mset (rev two_bars_pool) = mset two_bars_pool"
proof -
  have d: "table_loop_dice counter_random 1 (0, two_bars_pool, [])
     = Inr (1, two_bars_pool, [replicate 11 (rev two_bars_pool @ rev two_bars_pool)])"
    unfolding two_bars_pool_def by code_simp
  have s: "table_loop_spin counter_random 1 (0, two_bars_pool, [])
     = Inr (1, rev two_bars_pool, [replicate 11 (rev two_bars_pool @ rev two_bars_pool)])"
    unfolding two_bars_pool_def by code_simp
  from pool_after_table_generation[of counter_random 1 0 two_bars_pool "[]" 1 two_bars_pool
      "[replicate 11 (rev two_bars_pool @ rev two_bars_pool)]" 1 "rev two_bars_pool"
      "[replicate 11 (rev two_bars_pool @ rev two_bars_pool)]"]
    d s rng_ok_counter_random
  show ?thesis by simp
qed

text \<open>
  C9 as stated fails for \<^verbatim>\<open>spin_game_gui.py\<close>: one turn on a pool of two bars leaves the
  pool in the opposite order.
\<close>

theorem spin_pool_reordered:
  "\<not> isl (table_loop_spin counter_random 1 (0, two_bars_pool, []))
   \<and> fst (snd (projr (table_loop_spin counter_random 1 (0, two_bars_pool, [])))) = rev two_bars_pool
   \<and> rev two_bars_pool \<noteq> two_bars_pool"
  unfolding two_bars_pool_def by code_simp

section \<open>Runs of the two programs\<close>

lemma shuffle_unseeded [simp]: "shuffle (R\<lparr>unseeded := e\<rparr>) = shuffle R"
  by (rule ext)+ (simp add: shuffle_def shuffle_step_def[abs_def])

lemma table_loop_dice_unseeded_st:
  "table_loop_dice (R\<lparr>unseeded := e\<rparr>) n st = table_loop_dice R n st"
  by (induction R n st rule: table_loop_dice.induct) (auto split: prod.splits sum.splits)

lemma table_loop_dice_unseeded [simp]:
  "table_loop_dice (R\<lparr>unseeded := e\<rparr>) n = table_loop_dice R n"
  by (rule ext) (rule table_loop_dice_unseeded_st)

lemma table_loop_spin_unseeded_st:
  "table_loop_spin (R\<lparr>unseeded := e\<rparr>) n st = table_loop_spin R n st"
  by (induction R n st rule: table_loop_spin.induct) (auto split: prod.splits sum.splits)

lemma table_loop_spin_unseeded [simp]:
  "table_loop_spin (R\<lparr>unseeded := e\<rparr>) n = table_loop_spin R n"
  by (rule ext) (rule table_loop_spin_unseeded_st)



lemma build_with_table:
  assumes "map_sum (\<lambda>e. e) (\<lambda>(g, p, t). t) (f (rng, fst (projr (pool_loop midis ([], None, None))), []))
         = map_sum (\<lambda>e. e) (\<lambda>(g, p, t). t) (h (rng, fst (projr (pool_loop midis ([], None, None))), []))"
  shows "build_with f rng midis spins tpb_out = build_with h rng midis spins tpb_out"
proof (cases "pool_loop midis ([], None, None)")
  case (Inl e)
  then show ?thesis by (simp add: build_with_def)
next
  case (Inr st)
  obtain pool bt bs where st: "st = (pool, bt, bs)" by (cases st)
  from assms Inr st have a: "map_sum (\<lambda>e. e) (\<lambda>(g, p, t). t) (f (rng, pool, []))
         = map_sum (\<lambda>e. e) (\<lambda>(g, p, t). t) (h (rng, pool, []))" by simp
  show ?thesis
  proof (cases "f (rng, pool, [])")
    case fl: (Inl e)
    with a have "h (rng, pool, []) = Inl e" by (cases "h (rng, pool, [])") auto
    with fl Inr st show ?thesis by (simp add: build_with_def)
  next
    case fr: (Inr r)
    obtain g p t where r: "r = (g, p, t)" by (cases r)
    with a fr obtain g' p' where "h (rng, pool, []) = Inr (g', p', t)"
      by (cases "h (rng, pool, [])") auto
    with fr r Inr st show ?thesis by (simp add: build_with_def)
  qed
qed

lemma tables_agree_one_turn:
  "n \<le> 1 \<Longrightarrow> map_sum (\<lambda>e. e) (\<lambda>(g, p, t). t) (table_loop_dice R n (rng, pool, []))
     = map_sum (\<lambda>e. e) (\<lambda>(g, p, t). t) (table_loop_spin R n (rng, pool, []))"
proof -
  assume "n \<le> 1"
  then consider "n = 0" | "n = Suc 0" by arith
  then show ?thesis
    by cases (auto split: prod.splits sum.splits)
qed

lemma shuffle_small: "length x \<le> 1 \<Longrightarrow> shuffle R g x = (x, g)"
  by (simp add: shuffle_def)

lemma tables_agree_small_pool:
  "length pool \<le> 1 \<Longrightarrow> table_loop_dice R n (rng, pool, t) = table_loop_spin R n (rng, pool, t)"
  by (induction n arbitrary: rng t) (auto simp: shuffle_small split: sum.splits)

text \<open>
  C1 (as the code has it). The two programs differ in one statement: the first shuffles a
  copy of the pool for every turn, the second shuffles the pool itself, so that from the
  second turn on it starts from the order the turn before left. With at most one spin, or
  with sources that yield at most one safe bar in all, they return the same result, error
  or output stream and trace.
\<close>

theorem builds_agree_on_one_spin:
  assumes "length spins \<le> 1 \<or>
           (\<forall>pool base_tempo base_ts.
              pool_loop midis ([], None, None) = Inr (pool, base_tempo, base_ts)
                \<longrightarrow> length pool \<le> 1)"
  shows "build_from_spins_dice R midis spins tpb_out seed
           = build_from_spins_spin R midis spins tpb_out seed"
  using assms
proof
  assume "length spins \<le> 1"
  then show ?thesis
    unfolding build_from_spins_dice_def build_from_spins_spin_def
    by (intro build_with_table tables_agree_one_turn)
next
  assume small: "\<forall>pool base_tempo base_ts.
              pool_loop midis ([], None, None) = Inr (pool, base_tempo, base_ts)
                \<longrightarrow> length pool \<le> 1"
  show ?thesis
  proof (cases "pool_loop midis ([], None, None)")
    case (Inl e)
    then show ?thesis
      by (simp add: build_from_spins_dice_def build_from_spins_spin_def build_with_def)
  next
    case (Inr st)
    obtain pool bt bs where st: "st = (pool, bt, bs)" by (metis prod_cases3)
    with small Inr have "length pool \<le> 1" by blast
    then have "table_loop_dice R (length spins) (Random R seed, pool, [])
                 = table_loop_spin R (length spins) (Random R seed, pool, [])"
      by (rule tables_agree_small_pool)
    with Inr st show ?thesis
      unfolding build_from_spins_dice_def build_from_spins_spin_def
      by (intro build_with_table) simp
  qed
qed

theorem builds_agree_on_one_spin_witness:
  "build_from_spins_dice counter_random [(''a.mid'', two_bars)] [7] 4 (Some 0)
     = build_from_spins_spin counter_random [(''a.mid'', two_bars)] [7] 4 (Some 0) \<and>
   build_from_spins_dice counter_random [(''a.mid'', late_note)] [7, 2, 12] 4 (Some 0)
     = build_from_spins_spin counter_random [(''a.mid'', late_note)] [7, 2, 12] 4 (Some 0)"
proof -
  have one: "length [7 :: int] \<le> 1 \<or>
      (\<forall>pool base_tempo base_ts.
         pool_loop [(''a.mid'', two_bars)] ([], None, None) = Inr (pool, base_tempo, base_ts)
           \<longrightarrow> length pool \<le> 1)"
    by simp
  have p: "pool_loop [(''a.mid'', late_note)] ([], None, None)
             = Inr (late_note_pool, Some 500000, Some (4, 4))"
    by code_simp
  have small: "length [7 :: int, 2, 12] \<le> 1 \<or>
      (\<forall>pool base_tempo base_ts.
         pool_loop [(''a.mid'', late_note)] ([], None, None) = Inr (pool, base_tempo, base_ts)
           \<longrightarrow> length pool \<le> 1)"
    unfolding p by (simp add: late_note_pool_def)
  from builds_agree_on_one_spin[OF one] builds_agree_on_one_spin[OF small]
  show ?thesis by blast
qed

text \<open>
  C1 as stated fails with two spins: on the pool of \<open>two_bars\<close> the first draw swaps the
  two bars and the second does not, so the second turn of the first program plays the bars
  in their original order and the second turn of the other plays them swapped.
\<close>

theorem builds_differ_on_two_spins:
  "build_from_spins_dice counter_random [(''a.mid'', two_bars)] [2, 2] 4 (Some 0)
     \<noteq> build_from_spins_spin counter_random [(''a.mid'', two_bars)] [2, 2] 4 (Some 0)"
  unfolding two_bars_def by code_simp

section \<open>Assembly\<close>






lemma scale_bar_zero: "scale_bar tpb_out 0 bar = Inl ZeroDivisionError"
  by (simp add: scale_bar_def float_truediv_def py_float_eq_0_iff)
















section \<open>Errors of a composition\<close>









end
